theory Spec2Isabelle
  imports Main
begin

unbundle bit_operations_syntax

section \<open>The token stream\<close>

text \<open>
  A token pointer (\<^verbatim>\<open>const Token *\<close>) is an index into the token list, or \<open>None\<close>
  for the null pointer. \<^verbatim>\<open>MathLib::bigint\<close> values are only ever combined with
  \<^verbatim>\<open>&\<close>, \<^verbatim>\<open>|\<close>, \<^verbatim>\<open>==\<close>, \<^verbatim>\<open>!=\<close> and \<^verbatim>\<open>< 0\<close>, none of which can overflow, so
  they are integers with two's complement bit operations.
\<close>

type_synonym ptr = "nat option"
type_synonym bigint = int

text \<open>
  Modelled from the spec: the class Token is declared outside \<^verbatim>\<open>src/\<close>. A token has its
  text, its source line, a variable identity (0: not a variable), for a bracket the
  reference to its counterpart, and the two lexical classes the pattern matcher asks for.
\<close>

record Token =
  str :: string
  varId :: nat
  linenr :: nat
  link :: ptr
  isName :: bool
  isNumber :: bool

text \<open>
  Modelled from the spec: \<^verbatim>\<open>MathLib::toLongNumber\<close> is not under \<^verbatim>\<open>src/\<close>. The analyses
  take the literal evaluator as a parameter, so every result holds for any evaluator.
\<close>

type_synonym decoder = "string \<Rightarrow> bigint"

text \<open>Modelled from the spec: \<^verbatim>\<open>Token::next\<close>, \<^verbatim>\<open>previous\<close>, \<^verbatim>\<open>tokAt\<close>, \<^verbatim>\<open>strAt\<close>,
  \<^verbatim>\<open>link\<close> over the index-addressed token sequence. \<^verbatim>\<open>strAt\<close> of a missing token is
  the empty string. A link that leaves the sequence counts as missing.\<close>

fun next_tok :: "Token list \<Rightarrow> ptr \<Rightarrow> ptr" where
  "next_tok toks None = None"
| "next_tok toks (Some i) = (if Suc i < length toks then Some (Suc i) else None)"

fun previous :: "Token list \<Rightarrow> ptr \<Rightarrow> ptr" where
  "previous toks None = None"
| "previous toks (Some i) = (if 0 < i \<and> i \<le> length toks then Some (i - 1) else None)"

fun tokAt :: "Token list \<Rightarrow> ptr \<Rightarrow> int \<Rightarrow> ptr" where
  "tokAt toks None n = None"
| "tokAt toks (Some i) n =
     (if 0 \<le> int i + n \<and> int i + n < int (length toks) then Some (nat (int i + n)) else None)"

definition strAt :: "Token list \<Rightarrow> ptr \<Rightarrow> int \<Rightarrow> string" where
  "strAt toks tok n = (case tokAt toks tok n of None \<Rightarrow> [] | Some k \<Rightarrow> str (toks ! k))"

fun link_of :: "Token list \<Rightarrow> ptr \<Rightarrow> ptr" where
  "link_of toks None = None"
| "link_of toks (Some i) =
     (if i < length toks
      then (case link (toks ! i) of
              None \<Rightarrow> None
            | Some l \<Rightarrow> if l < length toks then Some l else None)
      else None)"

definition linkAt :: "Token list \<Rightarrow> ptr \<Rightarrow> int \<Rightarrow> ptr" where
  "linkAt toks tok n = link_of toks (tokAt toks tok n)"

section \<open>The pattern matcher\<close>

text \<open>
  Modelled from the spec: \<^verbatim>\<open>Token::Match\<close> and \<^verbatim>\<open>Token::simpleMatch\<close> are not under
  \<^verbatim>\<open>src/\<close>. A pattern is a sequence of words: a literal, \<^verbatim>\<open>%var%\<close> (any name),
  \<^verbatim>\<open>%varid%\<close> (the given variable identity), \<^verbatim>\<open>%num%\<close> (any numeric literal),
  \<^verbatim>\<open>%any%\<close>, a one-character class \<^verbatim>\<open>[..]\<close>, an alternation \<^verbatim>\<open>a|b|c\<close>, and an
  alternation ending in \<^verbatim>\<open>|\<close>, which may also match no token. Matching is anchored at
  the given token and never backtracks; a missing token matches no word.
\<close>

datatype pat =
    Word string
  | AnyVar
  | VarId
  | Num
  | AnyTok
  | OneChar string
  | OneOf "string list"
  | Optional "string list"

fun accepts :: "pat \<Rightarrow> Token \<Rightarrow> nat \<Rightarrow> bool" where
  "accepts (Word s) t varid = (str t = s)"
| "accepts AnyVar t varid = isName t"
| "accepts VarId t varid = (varId t = varid)"
| "accepts Num t varid = isNumber t"
| "accepts AnyTok t varid = True"
| "accepts (OneChar cs) t varid = (case str t of [c] \<Rightarrow> c \<in> set cs | _ \<Rightarrow> False)"
| "accepts (OneOf alts) t varid = (str t \<in> set alts)"
| "accepts (Optional alts) t varid = (str t \<in> set alts)"

fun Match :: "Token list \<Rightarrow> ptr \<Rightarrow> pat list \<Rightarrow> nat \<Rightarrow> bool" where
  "Match toks tok [] varid = True"
| "Match toks None (p # ps) varid = False"
| "Match toks (Some i) (Optional alts # ps) varid =
     (i < length toks \<and>
      (if accepts (Optional alts) (toks ! i) varid
       then Match toks (next_tok toks (Some i)) ps varid
       else Match toks (Some i) ps varid))"
| "Match toks (Some i) (p # ps) varid =
     (i < length toks \<and> accepts p (toks ! i) varid \<and>
      Match toks (next_tok toks (Some i)) ps varid)"

fun simpleMatch :: "Token list \<Rightarrow> ptr \<Rightarrow> string list \<Rightarrow> bool" where
  "simpleMatch toks tok [] = True"
| "simpleMatch toks None (w # ws) = False"
| "simpleMatch toks (Some i) (w # ws) =
     (i < length toks \<and> str (toks ! i) = w \<and> simpleMatch toks (next_tok toks (Some i)) ws)"

section \<open>Findings\<close>

text \<open>
  A finding records which reporting function was called and with which arguments; the
  first argument is always the anchor token handed on to \<^verbatim>\<open>reportError\<close>.
\<close>

datatype finding =
    AssignIfError ptr bool
  | ComparisonError ptr string bigint string bigint bool
  | MultiConditionError ptr nat

fun anchor :: "finding \<Rightarrow> ptr" where
  "anchor (AssignIfError tok result) = tok"
| "anchor (ComparisonError tok bitop value1 op value2 result) = tok"
| "anchor (MultiConditionError tok line1) = tok"

datatype error = NullPointer | OutOfRange

section \<open>CheckAssignIf::assignIf\<close>

text \<open>\<^verbatim>\<open>"[;{}] %var% = %var% [&|] %num% ;"\<close>\<close>

definition assign_pattern :: "pat list" where
  "assign_pattern =
     [OneChar '';{}'', AnyVar, Word ''='', AnyVar, OneChar ''&|'', Num, Word '';'']"

text \<open>\<^verbatim>\<open>"if ( %varid% %any% %num% &&|%oror%|)"\<close>\<close>

definition if_pattern :: "pat list" where
  "if_pattern =
     [Word ''if'', Word ''('', VarId, AnyTok, Num, OneOf [''&&'', ''||'', '')'']]"

text \<open>The loop exits of line 55.\<close>

definition stop_token :: "string \<Rightarrow> bool" where
  "stop_token s = (s = ''('' \<or> s = ''}'' \<or> s = ''='')"

text \<open>\<^verbatim>\<open>(num & num2) != ((bitop=='&') ? num2 : num)\<close>\<close>

definition assign_mismatch :: "char \<Rightarrow> bigint \<Rightarrow> bigint \<Rightarrow> bool" where
  "assign_mismatch bitop num num2 =
     ((num AND num2) \<noteq> (if bitop = CHR ''&'' then num2 else num))"

text \<open>Lines 58 to 63: the verdict at a matched \<^verbatim>\<open>if\<close> token \<open>j\<close>.\<close>

definition assignIf_verdict :: "decoder \<Rightarrow> Token list \<Rightarrow> char \<Rightarrow> bigint \<Rightarrow> nat \<Rightarrow> finding list" where
  "assignIf_verdict dec toks bitop num j =
     (let op = strAt toks (Some j) 3;
          num2 = dec (strAt toks (Some j) 4)
      in if op = ''=='' \<and> assign_mismatch bitop num num2 then [AssignIfError (Some j) False]
         else if op = ''!='' \<and> assign_mismatch bitop num num2 then [AssignIfError (Some j) True]
         else [])"

text \<open>
  Lines 54 to 66: the forward scan. The cursor \<open>j\<close> is \<^verbatim>\<open>tok2\<close>; it is null once it has
  left the sequence.
\<close>

function assignIf_scan :: "decoder \<Rightarrow> Token list \<Rightarrow> nat \<Rightarrow> char \<Rightarrow> bigint \<Rightarrow> nat \<Rightarrow> finding list" where
  "assignIf_scan dec toks varid bitop num j =
     (if j < length toks then
        if stop_token (str (toks ! j)) then []
        else if Match toks (Some j) if_pattern varid then assignIf_verdict dec toks bitop num j
        else assignIf_scan dec toks varid bitop num (Suc j)
      else [])"
  by pat_completeness auto
termination
  by (relation "measure (\<lambda>(dec, toks, varid, bitop, num, j). length toks - j)") auto

declare assignIf_scan.simps [simp del]

text \<open>
  Lines 40 to 67: the body of the outer loop at token \<open>i\<close>. \<^verbatim>\<open>std::string::at\<close> throws on
  an empty string.
\<close>

definition assignIf_at :: "decoder \<Rightarrow> Token list \<Rightarrow> nat \<Rightarrow> error + finding list" where
  "assignIf_at dec toks i =
     (if str (toks ! i) \<noteq> ''='' then Inr []
      else if Match toks (tokAt toks (Some i) (-2)) assign_pattern 0 then
        (case previous toks (Some i) of
           None \<Rightarrow> Inl NullPointer
         | Some p \<Rightarrow>
             let varid = varId (toks ! p) in
             if varid = 0 then Inr []
             else
               (case strAt toks (Some i) 2 of
                  [] \<Rightarrow> Inl OutOfRange
                | bitop # _ \<Rightarrow>
                    let num = dec (strAt toks (Some i) 3) in
                    if num < 0 then Inr []
                    else Inr (assignIf_scan dec toks varid bitop num (i + 4))))
      else Inr [])"

text \<open>Line 39: the outer loop from token \<open>i\<close> on; a fault ends the run.\<close>

function assignIf_loop :: "decoder \<Rightarrow> Token list \<Rightarrow> nat \<Rightarrow> error + finding list" where
  "assignIf_loop dec toks i =
     (if i < length toks then
        (case assignIf_at dec toks i of
           Inl e \<Rightarrow> Inl e
         | Inr fs \<Rightarrow>
             (case assignIf_loop dec toks (Suc i) of
                Inl e \<Rightarrow> Inl e
              | Inr gs \<Rightarrow> Inr (fs @ gs)))
      else Inr [])"
  by pat_completeness auto
termination
  by (relation "measure (\<lambda>(dec, toks, i). length toks - i)") auto

declare assignIf_loop.simps [simp del]

definition assignIf :: "bool \<Rightarrow> decoder \<Rightarrow> Token list \<Rightarrow> error + finding list" where
  "assignIf style dec toks = (if \<not> style then Inr [] else assignIf_loop dec toks 0)"

section \<open>CheckAssignIf::comparison\<close>

text \<open>\<^verbatim>\<open>"&|%or% %num% )| ==|!= %num% &&|%oror%|)"\<close>\<close>

definition comparison_pattern :: "pat list" where
  "comparison_pattern =
     [OneOf [''&'', ''|''], Num, Optional ['')''], OneOf [''=='', ''!=''], Num,
      OneOf [''&&'', ''||'', '')'']]"

text \<open>\<^verbatim>\<open>"(|%oror%|&&"\<close>\<close>

definition before_paren_pattern :: "pat list" where
  "before_paren_pattern = [OneOf [''('', ''||'', ''&&'']]"

text \<open>Lines 104 and 105.\<close>

definition comparison_mismatch :: "string \<Rightarrow> bigint \<Rightarrow> bigint \<Rightarrow> bool" where
  "comparison_mismatch bitop num1 num2 =
     ((bitop = ''&'' \<and> (num1 AND num2) \<noteq> num2) \<or>
      (bitop = ''|'' \<and> (num1 OR num2) \<noteq> num2))"

text \<open>Lines 100 to 108, for the comparison operator token \<open>c\<close>.\<close>

definition comparison_verdict :: "decoder \<Rightarrow> Token list \<Rightarrow> nat \<Rightarrow> bigint \<Rightarrow> nat \<Rightarrow> finding list" where
  "comparison_verdict dec toks i num1 c =
     (let num2 = dec (strAt toks (Some c) 1) in
      if num2 < 0 then []
      else if comparison_mismatch (str (toks ! i)) num1 num2 then
        (let op = str (toks ! c) in
         [ComparisonError (Some i) (str (toks ! i)) num1 op num2 (op \<noteq> ''=='')])
      else [])"

text \<open>
  Lines 88 to 109: the loop body at token \<open>i\<close>. Following a missing link or a missing
  next token is a null pointer dereference.
\<close>

definition comparison_at :: "decoder \<Rightarrow> Token list \<Rightarrow> nat \<Rightarrow> error + finding list" where
  "comparison_at dec toks i =
     (if Match toks (Some i) comparison_pattern 0 then
        (let num1 = dec (strAt toks (Some i) 1) in
         if num1 < 0 then Inr []
         else
           (case tokAt toks (Some i) 2 of
              None \<Rightarrow> Inl NullPointer
            | Some c \<Rightarrow>
                if str (toks ! c) = '')'' then
                  (case link_of toks (Some c) of
                     None \<Rightarrow> Inl NullPointer
                   | Some l \<Rightarrow>
                       if \<not> Match toks (previous toks (Some l)) before_paren_pattern 0
                       then Inr []
                       else
                         (case next_tok toks (Some c) of
                            None \<Rightarrow> Inl NullPointer
                          | Some c' \<Rightarrow> Inr (comparison_verdict dec toks i num1 c')))
                else Inr (comparison_verdict dec toks i num1 c)))
      else Inr [])"

function comparison_loop :: "decoder \<Rightarrow> Token list \<Rightarrow> nat \<Rightarrow> error + finding list" where
  "comparison_loop dec toks i =
     (if i < length toks then
        (case comparison_at dec toks i of
           Inl e \<Rightarrow> Inl e
         | Inr fs \<Rightarrow>
             (case comparison_loop dec toks (Suc i) of
                Inl e \<Rightarrow> Inl e
              | Inr gs \<Rightarrow> Inr (fs @ gs)))
      else Inr [])"
  by pat_completeness auto
termination
  by (relation "measure (\<lambda>(dec, toks, i). length toks - i)") auto

declare comparison_loop.simps [simp del]

definition comparison :: "bool \<Rightarrow> decoder \<Rightarrow> Token list \<Rightarrow> error + finding list" where
  "comparison style dec toks = (if \<not> style then Inr [] else comparison_loop dec toks 0)"

section \<open>CheckAssignIf::multiCondition\<close>

text \<open>
  Modelled from the spec: the class Scope is declared outside \<^verbatim>\<open>src/\<close>. A scope has a
  type tag, of which only \<^verbatim>\<open>eIf\<close> is asked for, and the token that starts it.
\<close>

datatype ScopeType = eIf | eOther

record Scope =
  type :: ScopeType
  classDef :: ptr

text \<open>\<^verbatim>\<open>"if ( %var% & %num% ) {"\<close>\<close>

definition cond_pattern :: "pat list" where
  "cond_pattern =
     [Word ''if'', Word ''('', AnyVar, Word ''&'', Num, Word '')'', Word ''{'']"

text \<open>\<^verbatim>\<open>"} else { if ("\<close>\<close>

definition else_if_words :: "string list" where
  "else_if_words = [''}'', ''else'', ''{'', ''if'', ''('']"

text \<open>\<^verbatim>\<open>"( %varid% ==|& %num% &&|%oror%|)"\<close>\<close>

definition chain_pattern :: "pat list" where
  "chain_pattern =
     [Word ''('', VarId, OneOf [''=='', ''&''], Num, OneOf [''&&'', ''||'', '')'']]"

text \<open>Lines 156 to 158: the cursor after the if-block opened at \<open>opar\<close>.\<close>

definition skip_if_block :: "Token list \<Rightarrow> ptr \<Rightarrow> ptr" where
  "skip_if_block toks opar =
     (let tok2 = link_of toks opar in
      if simpleMatch toks tok2 ['')'', ''{''] then link_of toks (next_tok toks tok2) else tok2)"

text \<open>
  Lines 161 to 169: what one link of the chain reports. The \<^verbatim>\<open>continue\<close> of line 164
  goes on with the cursor already moved, so it only leaves out the report.
\<close>

definition link_findings :: "decoder \<Rightarrow> Token list \<Rightarrow> nat \<Rightarrow> bigint \<Rightarrow> nat \<Rightarrow> ptr \<Rightarrow> finding list" where
  "link_findings dec toks varid num1 line1 opar =
     (if Match toks opar chain_pattern varid then
        (let num2 = dec (strAt toks opar 3) in
         if num2 < 0 then []
         else if (num1 AND num2) = num2 then [MultiConditionError opar line1]
         else [])
      else [])"

text \<open>
  Lines 151 to 170: the walk along the chain. Nothing in the loop bounds the number of
  rounds, so the walk is a partial function: \<open>None\<close> is a walk that never ends.
\<close>

partial_function (option) chain_walk ::
  "decoder \<Rightarrow> Token list \<Rightarrow> nat \<Rightarrow> bigint \<Rightarrow> nat \<Rightarrow> ptr \<Rightarrow> finding list option" where
  "chain_walk dec toks varid num1 line1 tok2 =
     (if simpleMatch toks tok2 else_if_words then
        (let opar = tokAt toks tok2 4 in
         Option.bind (chain_walk dec toks varid num1 line1 (skip_if_block toks opar))
           (\<lambda>rest. Some (link_findings dec toks varid num1 line1 opar @ rest)))
      else Some [])"

text \<open>
  Lines 140 to 171: the loop body for one scope. Where the pattern of line 140 matches at
  token \<open>t\<close>, the tokens \<open>t\<close> to \<open>t + 6\<close> exist.
\<close>

definition multiCondition_scope :: "decoder \<Rightarrow> Token list \<Rightarrow> Scope \<Rightarrow> finding list option" where
  "multiCondition_scope dec toks sc =
     (case classDef sc of
        None \<Rightarrow> Some []
      | Some t \<Rightarrow>
          if type sc = eIf \<and> Match toks (Some t) cond_pattern 0 then
            (let varid = varId (toks ! (t + 2)) in
             if varid = 0 then Some []
             else
               (let num1 = dec (strAt toks (Some t) 4) in
                if num1 < 0 then Some []
                else chain_walk dec toks varid num1 (linenr (toks ! t)) (linkAt toks (Some t) 6)))
          else Some [])"

fun multiCondition_scopes :: "decoder \<Rightarrow> Token list \<Rightarrow> Scope list \<Rightarrow> finding list option" where
  "multiCondition_scopes dec toks [] = Some []"
| "multiCondition_scopes dec toks (sc # scs) =
     Option.bind (multiCondition_scope dec toks sc)
       (\<lambda>fs. Option.bind (multiCondition_scopes dec toks scs) (\<lambda>gs. Some (fs @ gs)))"

definition multiCondition :: "bool \<Rightarrow> decoder \<Rightarrow> Token list \<Rightarrow> Scope list \<Rightarrow> finding list option" where
  "multiCondition style dec toks scopeList =
     (if \<not> style then Some [] else multiCondition_scopes dec toks scopeList)"

section \<open>Notions used to state the properties\<close>


text \<open>
  The \<^verbatim>\<open>=\<close> token \<open>i\<close> is a candidate of \<^verbatim>\<open>assignIf\<close>: the tests of lines 43, 45 and 51
  pass. \<open>candidate_scan\<close> is what the loop body reports at \<open>i\<close>.
\<close>

definition candidate :: "decoder \<Rightarrow> Token list \<Rightarrow> nat \<Rightarrow> bool" where
  "candidate dec toks i \<longleftrightarrow>
     Match toks (tokAt toks (Some i) (-2)) assign_pattern 0 \<and>
     varId (toks ! (i - 1)) \<noteq> 0 \<and> 0 \<le> dec (str (toks ! (i + 3)))"

definition candidate_scan :: "decoder \<Rightarrow> Token list \<Rightarrow> nat \<Rightarrow> finding list" where
  "candidate_scan dec toks i =
     (if candidate dec toks i
      then assignIf_scan dec toks (varId (toks ! (i - 1))) (hd (str (toks ! (i + 2))))
             (dec (str (toks ! (i + 3)))) (i + 4)
      else [])"

text \<open>
  The scope \<open>sc\<close> passes the tests of lines 140, 143 and 147 with its condition starting
  at token \<open>t\<close>: an if-block on \<^verbatim>\<open>if ( var & mask1 ) {\<close> with a nonzero variable
  identity and a non-negative mask.
\<close>

definition masked_if :: "decoder \<Rightarrow> Token list \<Rightarrow> Scope \<Rightarrow> nat \<Rightarrow> bool" where
  "masked_if dec toks sc t \<longleftrightarrow>
     type sc = eIf \<and> classDef sc = Some t \<and> Match toks (Some t) cond_pattern 0 \<and>
     varId (toks ! (t + 2)) \<noteq> 0 \<and> 0 \<le> dec (str (toks ! (t + 4)))"

text \<open>Well-formed bracket links: the link of an opening bracket points to a later token. A
  missing link is allowed.\<close>

definition open_bracket :: "string \<Rightarrow> bool" where
  "open_bracket s = (s = ''('' \<or> s = ''{'')"

fun forward_from :: "nat \<Rightarrow> Token list \<Rightarrow> bool" where
  "forward_from i [] = True"
| "forward_from i (t # ts) =
     ((open_bracket (str t) \<longrightarrow> (case link t of None \<Rightarrow> True | Some l \<Rightarrow> i < l)) \<and>
      forward_from (Suc i) ts)"

definition links_forward :: "Token list \<Rightarrow> bool" where
  "links_forward toks = forward_from 0 toks"

text \<open>
  The links of an else-if chain: \<open>chain_link toks p c\<close> holds when the walk started at
  cursor \<open>p\<close> finds \<^verbatim>\<open>} else { if (\<close> at cursor \<open>c\<close>.
\<close>

inductive chain_link :: "Token list \<Rightarrow> ptr \<Rightarrow> ptr \<Rightarrow> bool" for toks where
  here: "simpleMatch toks c else_if_words \<Longrightarrow> chain_link toks c c"
| later: "simpleMatch toks c else_if_words \<Longrightarrow>
          chain_link toks (skip_if_block toks (tokAt toks c 4)) d \<Longrightarrow> chain_link toks c d"

definition cursor_rest :: "Token list \<Rightarrow> ptr \<Rightarrow> nat" where
  "cursor_rest toks p = (case p of None \<Rightarrow> 0 | Some c \<Rightarrow> Suc (length toks - c))"

section \<open>Worked inputs\<close>

text \<open>
  Modelled from the spec: a literal evaluator for decimal literals with an optional minus
  sign, enough for the worked inputs below (\<^verbatim>\<open>MathLib::toLongNumber\<close> is not under
  \<^verbatim>\<open>src/\<close>).
\<close>

fun digits_value :: "nat \<Rightarrow> string \<Rightarrow> nat" where
  "digits_value acc [] = acc"
| "digits_value acc (c # cs) = digits_value (10 * acc + (of_char c - 48)) cs"

definition decimal :: decoder where
  "decimal s =
     (case s of
        [] \<Rightarrow> 0
      | c # cs \<Rightarrow> if c = CHR ''-'' then - int (digits_value 0 cs) else int (digits_value 0 s))"

text \<open>Tokens as the tokenizer hands them over: line, text, and what the kind adds.\<close>

definition name :: "nat \<Rightarrow> string \<Rightarrow> nat \<Rightarrow> Token" where
  "name l s v = \<lparr>str = s, varId = v, linenr = l, link = None, isName = True, isNumber = False\<rparr>"

definition number :: "nat \<Rightarrow> string \<Rightarrow> Token" where
  "number l s = \<lparr>str = s, varId = 0, linenr = l, link = None, isName = False, isNumber = True\<rparr>"

definition other :: "nat \<Rightarrow> string \<Rightarrow> Token" where
  "other l s = \<lparr>str = s, varId = 0, linenr = l, link = None, isName = False, isNumber = False\<rparr>"

definition bracket :: "nat \<Rightarrow> string \<Rightarrow> nat \<Rightarrow> Token" where
  "bracket l s k = \<lparr>str = s, varId = 0, linenr = l, link = Some k, isName = False, isNumber = False\<rparr>"

text \<open>\<^verbatim>\<open>; x = y & 3 ; if ( x == 5 ) { }\<close>\<close>

definition ex_assign :: "Token list" where
  "ex_assign =
     [other 1 '';'', name 1 ''x'' 1, other 1 ''='', name 1 ''y'' 2, other 1 ''&'',
      number 1 ''3'', other 1 '';'',
      name 2 ''if'' 0, bracket 2 ''('' 12, name 2 ''x'' 1, other 2 ''=='', number 2 ''5'',
      bracket 2 '')'' 8, bracket 2 ''{'' 14, bracket 2 ''}'' 13]"

text \<open>\<^verbatim>\<open>; x = y & 3 ; if ( x == -1 ) { }\<close>\<close>

definition ex_negative :: "Token list" where
  "ex_negative =
     [other 1 '';'', name 1 ''x'' 1, other 1 ''='', name 1 ''y'' 2, other 1 ''&'',
      number 1 ''3'', other 1 '';'',
      name 2 ''if'' 0, bracket 2 ''('' 12, name 2 ''x'' 1, other 2 ''=='', number 2 ''-1'',
      bracket 2 '')'' 8, bracket 2 ''{'' 14, bracket 2 ''}'' 13]"




text \<open>\<^verbatim>\<open>if ( ( a & 16 ) == 17 ) { }\<close>\<close>

definition ex_inline :: "Token list" where
  "ex_inline =
     [name 1 ''if'' 0, bracket 1 ''('' 9, bracket 1 ''('' 6, name 1 ''a'' 1, other 1 ''&'',
      number 1 ''16'', bracket 1 '')'' 2, other 1 ''=='', number 1 ''17'', bracket 1 '')'' 1,
      bracket 1 ''{'' 11, bracket 1 ''}'' 10]"

text \<open>
  \<^verbatim>\<open>if ( x & 6 ) { } else { if ( x == 9 ) { } else { if ( x & 8 ) { } else { if ( x == 2 ) { } } } }\<close>,
  one \<^verbatim>\<open>if\<close> per line, starting on line 7.
\<close>

definition ex_chain :: "Token list" where
  "ex_chain =
     [name 7 ''if'' 0, bracket 7 ''('' 5, name 7 ''x'' 1, other 7 ''&'', number 7 ''6'',
      bracket 7 '')'' 1, bracket 7 ''{'' 7, bracket 7 ''}'' 6,
      name 8 ''else'' 0, bracket 8 ''{'' 40,
      name 8 ''if'' 0, bracket 8 ''('' 15, name 8 ''x'' 1, other 8 ''=='', number 8 ''9'',
      bracket 8 '')'' 11, bracket 8 ''{'' 17, bracket 8 ''}'' 16,
      name 9 ''else'' 0, bracket 9 ''{'' 39,
      name 9 ''if'' 0, bracket 9 ''('' 25, name 9 ''x'' 1, other 9 ''&'', number 9 ''8'',
      bracket 9 '')'' 21, bracket 9 ''{'' 27, bracket 9 ''}'' 26,
      name 10 ''else'' 0, bracket 10 ''{'' 38,
      name 10 ''if'' 0, bracket 10 ''('' 35, name 10 ''x'' 1, other 10 ''=='', number 10 ''2'',
      bracket 10 '')'' 31, bracket 10 ''{'' 37, bracket 10 ''}'' 36,
      bracket 10 ''}'' 29, bracket 10 ''}'' 19, bracket 10 ''}'' 9]"

definition ex_scopes :: "Scope list" where
  "ex_scopes =
     [\<lparr>type = eIf, classDef = Some 0\<rparr>, \<lparr>type = eOther, classDef = Some 8\<rparr>,
      \<lparr>type = eIf, classDef = Some 10\<rparr>, \<lparr>type = eIf, classDef = Some 20\<rparr>,
      \<lparr>type = eIf, classDef = Some 30\<rparr>]"

text \<open>
  \<^verbatim>\<open>} else { if (\<close> with the link of the open parenthesis pointing back to the first
  token: bracket links that are not well formed.
\<close>

definition ex_loop :: "Token list" where
  "ex_loop =
     [bracket 1 ''}'' 2, name 1 ''else'' 0, bracket 1 ''{'' 0, name 1 ''if'' 0,
      bracket 1 ''('' 0]"

section \<open>What the patterns match\<close>

lemma if_pattern_iff:
  "Match toks (Some j) if_pattern v \<longleftrightarrow>
     j + 5 < length toks \<and> str (toks ! j) = ''if'' \<and> str (toks ! (j + 1)) = ''('' \<and>
     varId (toks ! (j + 2)) = v \<and> isNumber (toks ! (j + 4)) \<and>
     str (toks ! (j + 5)) \<in> {''&&'', ''||'', '')''}"
  by (auto simp: if_pattern_def numeral_eq_Suc)

lemma assign_pattern_iff:
  "Match toks (tokAt toks (Some i) (-2)) assign_pattern 0 \<longleftrightarrow>
     2 \<le> i \<and> i + 4 < length toks \<and>
     str (toks ! (i - 2)) \<in> {'';'', ''{'', ''}''} \<and> isName (toks ! (i - 1)) \<and>
     str (toks ! i) = ''='' \<and> isName (toks ! (i + 1)) \<and>
     str (toks ! (i + 2)) \<in> {''&'', ''|''} \<and> isNumber (toks ! (i + 3)) \<and>
     str (toks ! (i + 4)) = '';''"
proof (cases "2 \<le> i")
  case False
  then show ?thesis by (simp add: assign_pattern_def)
next
  case True
  then obtain k where i: "i = k + 2" by (metis le_add_diff_inverse2)
  show ?thesis unfolding i
    by (auto simp: assign_pattern_def numeral_eq_Suc nat_add_distrib split: list.splits)
qed

lemma assignIf_at_eq: "assignIf_at dec toks i = Inr (candidate_scan dec toks i)"
proof (cases "Match toks (tokAt toks (Some i) (-2)) assign_pattern 0")
  case False
  then show ?thesis by (simp add: assignIf_at_def candidate_scan_def candidate_def)
next
  case True
  then have f: "2 \<le> i" "i + 4 < length toks" "str (toks ! i) = ''=''"
    "str (toks ! (i + 2)) \<in> {''&'', ''|''}"
    using assign_pattern_iff [THEN iffD1, OF True] by simp_all
  from f have s2: "strAt toks (Some i) 2 = str (toks ! (i + 2))"
    and s3: "strAt toks (Some i) 3 = str (toks ! (i + 3))"
    by (simp_all add: strAt_def nat_add_distrib)
  from f have p: "previous toks (Some i) = Some (i - 1)" by simp
  from True have M: "Match toks (tokAt toks (Some i) (-2)) assign_pattern 0 = True" by simp
  from f(3,4) show ?thesis
    by (auto simp add: assignIf_at_def candidate_scan_def candidate_def s2 s3 p Let_def M
          simp del: tokAt.simps previous.simps)
qed

lemma assignIf_loop_eq:
  "assignIf_loop dec toks i = Inr (concat (map (candidate_scan dec toks) [i..<length toks]))"
proof (induction "length toks - i" arbitrary: i)
  case 0
  then show ?case by (simp add: assignIf_loop.simps)
next
  case (Suc n)
  then have lt: "i < length toks" and n: "n = length toks - Suc i" by simp_all
  from Suc.hyps(1) [OF n] lt show ?case
    by (subst assignIf_loop.simps) (simp add: assignIf_at_eq upt_conv_Cons)
qed

lemma assignIf_scan_skip:
  assumes "s \<le> j"
    and "\<forall>k. s \<le> k \<and> k < j \<longrightarrow> \<not> stop_token (str (toks ! k)) \<and> \<not> Match toks (Some k) if_pattern v"
  shows "assignIf_scan dec toks v b m s = assignIf_scan dec toks v b m j"
  using assms
proof (induction "j - s" arbitrary: s)
  case 0
  then show ?case by simp
next
  case (Suc n)
  then have lt: "s < j" and n: "n = j - Suc s" by simp_all
  have rest: "assignIf_scan dec toks v b m (Suc s) = assignIf_scan dec toks v b m j"
    using Suc.hyps(1) [OF n] lt Suc.prems(2) by simp
  have here: "\<not> stop_token (str (toks ! s))" "\<not> Match toks (Some s) if_pattern v"
    using Suc.prems(2) lt by simp_all
  show ?case
  proof (cases "s < length toks")
    case True
    then show ?thesis using here rest by (subst assignIf_scan.simps) simp
  next
    case False
    then have "\<not> j < length toks" using lt by simp
    with False show ?thesis by (simp add: assignIf_scan.simps)
  qed
qed

lemma assignIf_scan_anchor:
  assumes "f \<in> set (assignIf_scan dec toks v b m s)"
  shows "\<exists>j r. f = AssignIfError (Some j) r \<and> s \<le> j \<and> j < length toks \<and>
           Match toks (Some j) if_pattern v \<and>
           (\<forall>k. s \<le> k \<and> k \<le> j \<longrightarrow> \<not> stop_token (str (toks ! k)))"
  using assms
proof (induction dec toks v b m s rule: assignIf_scan.induct)
  case (1 dec toks varid bitop num j)
  from "1.prems" have lt: "j < length toks" and ns: "\<not> stop_token (str (toks ! j))"
    by (subst (asm) assignIf_scan.simps, simp split: if_splits)+
  show ?case
  proof (cases "Match toks (Some j) if_pattern varid")
    case True
    with "1.prems" lt ns have "f \<in> set (assignIf_verdict dec toks bitop num j)"
      by (subst (asm) assignIf_scan.simps) simp
    then obtain r where "f = AssignIfError (Some j) r"
      by (auto simp: assignIf_verdict_def Let_def split: if_splits)
    with True lt ns show ?thesis by (auto simp: le_antisym)
  next
    case False
    with "1.prems" lt ns have "f \<in> set (assignIf_scan dec toks varid bitop num (Suc j))"
      by (subst (asm) assignIf_scan.simps) simp
    from "1.IH" [OF lt ns False this] obtain j' r where
      j': "f = AssignIfError (Some j') r" "Suc j \<le> j'" "j' < length toks"
        "Match toks (Some j') if_pattern varid"
        "\<forall>k. Suc j \<le> k \<and> k \<le> j' \<longrightarrow> \<not> stop_token (str (toks ! k))"
      by blast
    have "\<forall>k. j \<le> k \<and> k \<le> j' \<longrightarrow> \<not> stop_token (str (toks ! k))"
      using j'(5) ns by (metis Suc_leI le_neq_implies_less)
    with j' show ?thesis by (intro exI [of _ j'] exI [of _ r]) simp
  qed
qed


lemma assignIf_eq:
  "assignIf style dec toks =
     Inr (if style then concat (map (candidate_scan dec toks) [0..<length toks]) else [])"
  by (simp add: assignIf_def assignIf_loop_eq)

lemma candidate_scan_anchor:
  assumes "f \<in> set (candidate_scan dec toks i)"
  shows "candidate dec toks i \<and>
         (\<exists>j r. f = AssignIfError (Some j) r \<and> i + 4 \<le> j \<and> j < length toks \<and>
            Match toks (Some j) if_pattern (varId (toks ! (i - 1))) \<and>
            (\<forall>k. i + 4 \<le> k \<and> k \<le> j \<longrightarrow> \<not> stop_token (str (toks ! k))))"
proof -
  from assms have c: "candidate dec toks i"
    by (auto simp: candidate_scan_def split: if_splits)
  with assms have "f \<in> set (assignIf_scan dec toks (varId (toks ! (i - 1)))
      (hd (str (toks ! (i + 2)))) (dec (str (toks ! (i + 3)))) (i + 4))"
    by (simp add: candidate_scan_def)
  from assignIf_scan_anchor [OF this] c show ?thesis by blast
qed

lemma no_match_before_stop:
  assumes mj: "Match toks (Some j) if_pattern v"
    and nostop: "\<forall>k. s \<le> k \<and> k < j \<longrightarrow> \<not> stop_token (str (toks ! k))"
    and k: "s \<le> k" "k < j"
  shows "\<not> Match toks (Some k) if_pattern w"
proof
  assume "Match toks (Some k) if_pattern w"
  then have par: "str (toks ! (k + 1)) = ''(''" by (simp add: if_pattern_iff)
  from mj have "str (toks ! j) = ''if''" by (simp add: if_pattern_iff)
  with par have "k + 1 \<noteq> j" by auto
  with k have "s \<le> k + 1" "k + 1 < j" by simp_all
  with nostop have "\<not> stop_token (str (toks ! (k + 1)))" by blast
  with par show False by (simp add: stop_token_def)
qed

lemma scan_reaches_verdict:
  assumes mj: "Match toks (Some j) if_pattern v"
    and sj: "s \<le> j"
    and nostop: "\<forall>k. s \<le> k \<and> k < j \<longrightarrow> \<not> stop_token (str (toks ! k))"
  shows "assignIf_scan dec toks v b m s = assignIf_verdict dec toks b m j"
proof -
  have "\<forall>k. s \<le> k \<and> k < j \<longrightarrow>
          \<not> stop_token (str (toks ! k)) \<and> \<not> Match toks (Some k) if_pattern v"
    using no_match_before_stop [OF mj nostop] nostop by blast
  from assignIf_scan_skip [OF sj this]
  have "assignIf_scan dec toks v b m s = assignIf_scan dec toks v b m j" .
  also from mj have "j < length toks" "\<not> stop_token (str (toks ! j))"
    by (simp_all add: if_pattern_iff stop_token_def)
  with mj have "assignIf_scan dec toks v b m j = assignIf_verdict dec toks b m j"
    by (subst assignIf_scan.simps) simp
  finally show ?thesis .
qed

lemma candidate_unique:
  assumes ci: "candidate dec toks i" and ci': "candidate dec toks i'"
    and ij: "i + 4 \<le> j" and i'j: "i' + 4 \<le> j"
    and nostop: "\<forall>k. i + 4 \<le> k \<and> k < j \<longrightarrow> \<not> stop_token (str (toks ! k))"
    and nostop': "\<forall>k. i' + 4 \<le> k \<and> k < j \<longrightarrow> \<not> stop_token (str (toks ! k))"
    and lex: "\<forall>t \<in> set toks. str t = ''='' \<longrightarrow> \<not> isName t \<and> \<not> isNumber t"
  shows "i' = i"
proof -
  have one: "a < b \<Longrightarrow> False"
    if ca: "candidate dec toks a" and cb: "candidate dec toks b" and bj: "b + 4 \<le> j"
      and ns: "\<forall>k. a + 4 \<le> k \<and> k < j \<longrightarrow> \<not> stop_token (str (toks ! k))"
    for a b
  proof -
    assume ab: "a < b"
    from ca have pa: "a + 4 < length toks" "isName (toks ! (a + 1))"
      "str (toks ! (a + 2)) \<in> {''&'', ''|''}" "isNumber (toks ! (a + 3))"
      "str (toks ! (a + 4)) = '';''"
      using assign_pattern_iff [of toks a] by (simp_all add: candidate_def)
    from cb have pb: "str (toks ! b) = ''=''" "b + 4 < length toks"
      using assign_pattern_iff [of toks b] by (simp_all add: candidate_def)
    from pb have "toks ! b \<in> set toks" by simp
    with pb(1) lex have nb: "\<not> isName (toks ! b)" "\<not> isNumber (toks ! b)" by blast+
    consider "b = a + 1" | "b = a + 2" | "b = a + 3" | "b = a + 4" | "a + 4 < b"
      using ab by linarith
    then show False
    proof cases
      case 1 with pa nb show ?thesis by simp
    next
      case 2 with pa pb show ?thesis by auto
    next
      case 3 with pa nb show ?thesis by simp
    next
      case 4 with pa pb show ?thesis by simp
    next
      case 5
      with bj have "a + 4 \<le> b \<and> b < j" by simp
      with ns have "\<not> stop_token (str (toks ! b))" by blast
      with pb show ?thesis by (simp add: stop_token_def)
    qed
  qed
  show ?thesis
    using one [OF ci ci' i'j nostop] one [OF ci' ci ij nostop'] by (meson linorder_neqE_nat)
qed

section \<open>Properties of the direct-assignment analysis\<close>

lemmas fixtures = name_def number_def other_def bracket_def decimal_def

text \<open>
  C1. A masked assignment \<^verbatim>\<open>var = var2 & m ;\<close> at the \<^verbatim>\<open>=\<close> token \<open>i\<close>, with a nonzero
  variable identity and a non-negative mask \<open>m\<close>, is followed at token \<open>j\<close> by
  \<^verbatim>\<open>if ( var OP t\<close> with no open parenthesis, closing brace or \<^verbatim>\<open>=\<close> in between. Then
  the whole analysis runs without fault, and for \<^verbatim>\<open>==\<close> it reports always-false at \<open>j\<close>
  exactly when \<open>m AND t \<noteq> t\<close>, for \<^verbatim>\<open>!=\<close> it reports always-true at \<open>j\<close> exactly when
  \<open>m AND t \<noteq> t\<close>, and when \<open>m AND t = t\<close> no finding at all is anchored at \<open>j\<close>. Tokens
  spelled \<^verbatim>\<open>=\<close> are assumed to be neither names nor numbers.
\<close>

theorem and_rule:
  assumes cand: "candidate dec toks i"
    and amp: "str (toks ! (i + 2)) = ''&''"
    and m: "m = dec (str (toks ! (i + 3)))"
    and ij: "i + 4 \<le> j"
    and nostop: "\<forall>k. i + 4 \<le> k \<and> k < j \<longrightarrow> \<not> stop_token (str (toks ! k))"
    and mj: "Match toks (Some j) if_pattern (varId (toks ! (i - 1)))"
    and t: "t = dec (str (toks ! (j + 4)))"
    and lex: "\<forall>t \<in> set toks. str t = ''='' \<longrightarrow> \<not> isName t \<and> \<not> isNumber t"
  shows "\<exists>fs. assignIf True dec toks = Inr fs \<and>
           (str (toks ! (j + 3)) = ''=='' \<longrightarrow>
              (AssignIfError (Some j) False \<in> set fs \<longleftrightarrow> m AND t \<noteq> t) \<and>
              AssignIfError (Some j) True \<notin> set fs) \<and>
           (str (toks ! (j + 3)) = ''!='' \<longrightarrow>
              (AssignIfError (Some j) True \<in> set fs \<longleftrightarrow> m AND t \<noteq> t) \<and>
              AssignIfError (Some j) False \<notin> set fs) \<and>
           (m AND t = t \<longrightarrow> (\<forall>f \<in> set fs. anchor f \<noteq> Some j))"
proof -
  let ?v = "varId (toks ! (i - 1))"
  define fs where "fs = concat (map (candidate_scan dec toks) [0..<length toks])"
  from mj have j5: "j + 5 < length toks" by (simp add: if_pattern_iff)
  then have s3: "strAt toks (Some j) 3 = str (toks ! (j + 3))"
    and s4: "strAt toks (Some j) 4 = str (toks ! (j + 4))"
    by (simp_all add: strAt_def nat_add_distrib)
  from cand have il: "i < length toks"
    using assign_pattern_iff [of toks i] by (simp add: candidate_def)
  have here: "candidate_scan dec toks i = assignIf_verdict dec toks (CHR ''&'') m j"
    using cand amp m scan_reaches_verdict [OF mj ij nostop]
    by (simp add: candidate_scan_def)
  have only: "f \<in> set (candidate_scan dec toks i)"
    if f: "f \<in> set fs" and a: "anchor f = Some j" for f
  proof -
    from f obtain i' where i': "f \<in> set (candidate_scan dec toks i')"
      by (auto simp: fs_def)
    from candidate_scan_anchor [OF i'] a
    have c': "candidate dec toks i'" and i'j: "i' + 4 \<le> j"
      and ns': "\<forall>k. i' + 4 \<le> k \<and> k \<le> j \<longrightarrow> \<not> stop_token (str (toks ! k))"
      by auto
    from ns' have "\<forall>k. i' + 4 \<le> k \<and> k < j \<longrightarrow> \<not> stop_token (str (toks ! k))" by simp
    from candidate_unique [OF cand c' ij i'j nostop this lex] i' show ?thesis by simp
  qed
  have mem: "f \<in> set fs \<longleftrightarrow> f \<in> set (assignIf_verdict dec toks (CHR ''&'') m j)"
    if "anchor f = Some j" for f
  proof
    assume "f \<in> set fs"
    from only [OF this that] here show "f \<in> set (assignIf_verdict dec toks (CHR ''&'') m j)"
      by simp
  next
    assume "f \<in> set (assignIf_verdict dec toks (CHR ''&'') m j)"
    with here have "f \<in> set (candidate_scan dec toks i)" by simp
    moreover from il have "i \<in> set [0..<length toks]" by simp
    ultimately show "f \<in> set fs" unfolding fs_def by (simp del: set_upt) blast
  qed
  have run: "assignIf True dec toks = Inr fs" by (simp add: assignIf_eq fs_def)
  have eq: "str (toks ! (j + 3)) = ''=='' \<longrightarrow>
              (AssignIfError (Some j) False \<in> set fs \<longleftrightarrow> m AND t \<noteq> t) \<and>
              AssignIfError (Some j) True \<notin> set fs"
    by (simp add: mem assignIf_verdict_def s3 s4 t assign_mismatch_def Let_def)
  have ne: "str (toks ! (j + 3)) = ''!='' \<longrightarrow>
              (AssignIfError (Some j) True \<in> set fs \<longleftrightarrow> m AND t \<noteq> t) \<and>
              AssignIfError (Some j) False \<notin> set fs"
    by (simp add: mem assignIf_verdict_def s3 s4 t assign_mismatch_def Let_def)
  have none: "m AND t = t \<longrightarrow> (\<forall>f \<in> set fs. anchor f \<noteq> Some j)"
  proof (intro impI ballI notI)
    fix f assume sub: "m AND t = t" and f: "f \<in> set fs" and a: "anchor f = Some j"
    from mem [OF a] f have "f \<in> set (assignIf_verdict dec toks (CHR ''&'') m j)" by simp
    with sub show False
      by (simp add: assignIf_verdict_def s3 s4 t assign_mismatch_def Let_def split: if_splits)
  qed
  from run eq ne none show ?thesis by blast
qed


theorem and_rule_witness:
  "candidate decimal ex_assign 2 \<and> Match ex_assign (Some 7) if_pattern 1 \<and>
   str (ex_assign ! 10) = ''=='' \<and> (3::int) AND 5 \<noteq> 5 \<and>
   (\<exists>fs. assignIf True decimal ex_assign = Inr fs \<and>
      AssignIfError (Some 7) False \<in> set fs \<and> AssignIfError (Some 7) True \<notin> set fs)"
proof -
  have c: "candidate decimal ex_assign 2"
    by (simp add: candidate_def ex_assign_def fixtures assign_pattern_def)
  have amp: "str (ex_assign ! (2 + 2)) = ''&''"
    by (simp add: ex_assign_def fixtures)
  have m: "3 = decimal (str (ex_assign ! (2 + 3)))"
    by (simp add: ex_assign_def fixtures)
  have ij: "2 + 4 \<le> (7::nat)" by simp
  have ns: "\<forall>k. 2 + 4 \<le> k \<and> k < 7 \<longrightarrow> \<not> stop_token (str (ex_assign ! k))"
  proof (intro allI impI)
    fix k :: nat
    assume "2 + 4 \<le> k \<and> k < 7"
    then have "k = 6" by simp
    then show "\<not> stop_token (str (ex_assign ! k))"
      by (simp add: ex_assign_def fixtures stop_token_def)
  qed
  have mj: "Match ex_assign (Some 7) if_pattern (varId (ex_assign ! (2 - 1)))"
    by (simp add: ex_assign_def fixtures if_pattern_def)
  have t: "5 = decimal (str (ex_assign ! (7 + 4)))"
    by (simp add: ex_assign_def fixtures)
  have lex: "\<forall>t \<in> set ex_assign. str t = ''='' \<longrightarrow> \<not> isName t \<and> \<not> isNumber t"
    by (simp add: ex_assign_def fixtures)
  have op: "str (ex_assign ! (7 + 3)) = ''==''"
    by (simp add: ex_assign_def fixtures)
  have v: "varId (ex_assign ! (2 - 1)) = 1"
    by (simp add: ex_assign_def fixtures)
  have ne: "(3::int) AND 5 \<noteq> 5" by simp
  from and_rule [OF c amp m ij ns mj t lex] op ne mj v c show ?thesis
    by auto
qed

lemmas assignIf_run = assignIf_def assignIf_loop.simps assignIf_at_def assignIf_scan.simps
  assignIf_verdict_def assign_mismatch_def stop_token_def strAt_def assign_pattern_def
  if_pattern_def

text \<open>
  C5. Every finding of the direct-assignment analysis comes from the scan of a masked
  assignment, and for each masked assignment \<open>i\<close> whose scan reports it, it is anchored
  at a token \<open>j\<close> such that no token from the start of the scan up to \<open>j\<close> is an open
  parenthesis, a closing brace or \<^verbatim>\<open>=\<close>: nothing is reported after the first such
  token. A scan that stands on such a token reports nothing.
\<close>

theorem stop_token_bound:
  assumes run: "assignIf style dec toks = Inr fs" and f: "f \<in> set fs"
  shows "(\<exists>i. i < length toks \<and> f \<in> set (candidate_scan dec toks i)) \<and>
         (\<forall>i. f \<in> set (candidate_scan dec toks i) \<longrightarrow>
            candidate dec toks i \<and>
            (\<exists>j r. f = AssignIfError (Some j) r \<and> i + 4 \<le> j \<and> j < length toks \<and>
               (\<forall>k. i + 4 \<le> k \<and> k \<le> j \<longrightarrow> \<not> stop_token (str (toks ! k))))) \<and>
         (\<forall>k v b m. k < length toks \<and> stop_token (str (toks ! k)) \<longrightarrow>
            assignIf_scan dec toks v b m k = [])"
proof (intro conjI allI impI)
  from run f obtain i where "i < length toks" "f \<in> set (candidate_scan dec toks i)"
    by (auto simp: assignIf_eq split: if_splits)
  then show "\<exists>i. i < length toks \<and> f \<in> set (candidate_scan dec toks i)" by blast
next
  fix i assume "f \<in> set (candidate_scan dec toks i)"
  from candidate_scan_anchor [OF this] show "candidate dec toks i" by simp
next
  fix i assume "f \<in> set (candidate_scan dec toks i)"
  from candidate_scan_anchor [OF this]
  show "\<exists>j r. f = AssignIfError (Some j) r \<and> i + 4 \<le> j \<and> j < length toks \<and>
          (\<forall>k. i + 4 \<le> k \<and> k \<le> j \<longrightarrow> \<not> stop_token (str (toks ! k)))"
    by blast
next
  fix k v b m assume "k < length toks \<and> stop_token (str (toks ! k))"
  then show "assignIf_scan dec toks v b m k = []"
    by (subst assignIf_scan.simps) simp
qed

theorem stop_token_bound_witness:
  "assignIf True decimal ex_assign = Inr [AssignIfError (Some 7) False] \<and>
   AssignIfError (Some 7) False \<in> set (candidate_scan decimal ex_assign 2) \<and>
   candidate decimal ex_assign 2 \<and>
   \<not> stop_token (str (ex_assign ! 6)) \<and> \<not> stop_token (str (ex_assign ! 7)) \<and>
   stop_token (str (ex_assign ! 8)) \<and>
   assignIf_scan decimal ex_assign 1 (CHR ''&'') 3 8 = []"
proof -
  have run: "assignIf True decimal ex_assign = Inr [AssignIfError (Some 7) False]"
    by (simp add: assignIf_run ex_assign_def fixtures)
  have f: "AssignIfError (Some 7) False \<in> set [AssignIfError (Some 7) False]" by simp
  have scan: "AssignIfError (Some 7) False \<in> set (candidate_scan decimal ex_assign 2)"
    by (simp add: candidate_scan_def candidate_def assignIf_run ex_assign_def fixtures)
  have stop: "8 < length ex_assign \<and> stop_token (str (ex_assign ! 8))"
    by (simp add: ex_assign_def fixtures stop_token_def)
  have free: "\<not> stop_token (str (ex_assign ! 6))" "\<not> stop_token (str (ex_assign ! 7))"
    by (simp_all add: ex_assign_def fixtures stop_token_def)
  from stop_token_bound [OF run f] scan stop
  have "candidate decimal ex_assign 2"
    and "assignIf_scan decimal ex_assign 1 (CHR ''&'') 3 8 = []"
    by blast+
  with run scan stop free show ?thesis by simp
qed




text \<open>
  C4 does not hold of the direct-assignment analysis: the comparison constant is never
  tested for its sign (lines 59 to 63), unlike the mask (line 51) and unlike both
  literals of the two other analyses. In \<^verbatim>\<open>; x = y & 3 ; if ( x == -1 ) { }\<close> the
  constant decodes to a negative value and the finding is reported all the same.
\<close>

theorem negative_constant_reported:
  "decimal ''-1'' < 0 \<and> candidate decimal ex_negative 2 \<and>
   Match ex_negative (Some 7) if_pattern 1 \<and> str (ex_negative ! 11) = ''-1'' \<and>
   assignIf True decimal ex_negative = Inr [AssignIfError (Some 7) False]"
  by (simp add: candidate_def assignIf_run ex_negative_def fixtures)

section \<open>Properties of the inline analysis\<close>

lemma comparison_verdict_mem:
  "f \<in> set (comparison_verdict dec toks i num1 c) \<Longrightarrow> anchor f = Some i"
  by (auto simp: comparison_verdict_def Let_def split: if_splits)

lemma comparison_at_mem:
  assumes "comparison_at dec toks i = Inr gs" and "f \<in> set gs"
  shows "anchor f = Some i \<and> i + 2 < length toks \<and>
         (str (toks ! (i + 2)) = '')'' \<longrightarrow>
            (\<exists>l. link (toks ! (i + 2)) = Some l \<and> 0 < l \<and> l < length toks \<and>
               str (toks ! (l - 1)) \<in> {''('', ''||'', ''&&''}))"
proof -
  from assms have m: "Match toks (Some i) comparison_pattern 0"
    by (auto simp: comparison_at_def split: if_splits)
  then have i2: "i + 2 < length toks"
    by (auto simp: comparison_pattern_def numeral_eq_Suc split: if_splits)
  then have at: "tokAt toks (Some i) 2 = Some (i + 2)" by (simp add: nat_add_distrib)
  from assms m have a: "anchor f = Some i"
    by (auto simp: comparison_at_def Let_def at comparison_verdict_mem
        simp del: tokAt.simps link_of.simps previous.simps next_tok.simps
        split: if_splits option.splits)
  have "\<exists>l. link (toks ! (i + 2)) = Some l \<and> 0 < l \<and> l < length toks \<and>
          str (toks ! (l - 1)) \<in> {''('', ''||'', ''&&''}"
    if p: "str (toks ! (i + 2)) = '')''"
  proof -
    from assms m p obtain l where l: "link_of toks (Some (i + 2)) = Some l"
      "Match toks (previous toks (Some l)) before_paren_pattern 0"
      by (auto simp: comparison_at_def Let_def at
          simp del: tokAt.simps link_of.simps previous.simps next_tok.simps
          split: if_splits option.splits)
    from l(1) have "link (toks ! (i + 2)) = Some l" "l < length toks"
      by (auto split: if_splits option.splits)
    moreover from l(2) have "0 < l" "str (toks ! (l - 1)) \<in> {''('', ''||'', ''&&''}"
      by (auto simp: before_paren_pattern_def split: if_splits)
    ultimately show ?thesis by blast
  qed
  with a i2 show ?thesis by blast
qed

lemma comparison_loop_mem:
  assumes "comparison_loop dec toks i = Inr fs" and "f \<in> set fs"
  shows "\<exists>k gs. i \<le> k \<and> k < length toks \<and> comparison_at dec toks k = Inr gs \<and> f \<in> set gs"
  using assms
proof (induction dec toks i arbitrary: fs rule: comparison_loop.induct)
  case (1 dec toks i)
  from "1.prems"(1) "1.prems"(2) have lt: "i < length toks"
    by (subst (asm) comparison_loop.simps) (auto split: if_splits)
  with "1.prems"(1) obtain gs hs where
    g: "comparison_at dec toks i = Inr gs" "comparison_loop dec toks (Suc i) = Inr hs"
       "fs = gs @ hs"
    by (subst (asm) comparison_loop.simps) (auto split: sum.splits)
  from "1.prems"(2) g(3) consider "f \<in> set gs" | "f \<in> set hs" by auto
  then show ?case
  proof cases
    case 1
    with g(1) lt show ?thesis by blast
  next
    case 2
    from "1.IH" [OF lt g(1) g(2) 2] show ?thesis by (meson Suc_leD)
  qed
qed

lemmas comparison_run = comparison_def comparison_loop.simps comparison_at_def
  comparison_verdict_def comparison_mismatch_def comparison_pattern_def
  before_paren_pattern_def strAt_def

text \<open>
  C7. Whenever the inline analysis reports a finding at token \<open>i\<close> and the token after
  the mask is the optional closing parenthesis, that parenthesis has a matching open
  bracket and the token just before the open bracket is \<^verbatim>\<open>(\<close>, \<^verbatim>\<open>||\<close> or \<^verbatim>\<open>&&\<close>. In
  every other case the candidate yields no finding.
\<close>

theorem inline_paren_validation:
  assumes run: "comparison style dec toks = Inr fs" and f: "f \<in> set fs"
    and a: "anchor f = Some i" and paren: "str (toks ! (i + 2)) = '')''"
  shows "\<exists>l. link (toks ! (i + 2)) = Some l \<and> 0 < l \<and> l < length toks \<and>
           str (toks ! (l - 1)) \<in> {''('', ''||'', ''&&''}"
proof -
  from run f have "comparison_loop dec toks 0 = Inr fs"
    by (auto simp: comparison_def split: if_splits)
  from comparison_loop_mem [OF this f] obtain k gs where
    k: "comparison_at dec toks k = Inr gs" "f \<in> set gs"
    by blast
  from comparison_at_mem [OF k] a have "k = i" by simp
  with comparison_at_mem [OF k] paren show ?thesis by blast
qed

theorem inline_paren_validation_witness:
  "comparison True decimal ex_inline =
     Inr [ComparisonError (Some 4) ''&'' 16 ''=='' 17 False] \<and>
   str (ex_inline ! 6) = '')'' \<and> link (ex_inline ! 6) = Some 2 \<and>
   str (ex_inline ! 1) = ''('' \<and>
   (\<exists>l. link (ex_inline ! (4 + 2)) = Some l \<and> 0 < l \<and> l < length ex_inline \<and>
      str (ex_inline ! (l - 1)) \<in> {''('', ''||'', ''&&''})"
proof -
  have run: "comparison True decimal ex_inline =
      Inr [ComparisonError (Some 4) ''&'' 16 ''=='' 17 False]"
    by (simp add: comparison_run ex_inline_def fixtures)
  have f: "ComparisonError (Some 4) ''&'' 16 ''=='' 17 False \<in>
      set [ComparisonError (Some 4) ''&'' 16 ''=='' 17 False]"
    by simp
  have a: "anchor (ComparisonError (Some 4) ''&'' 16 ''=='' 17 False) = Some 4" by simp
  have paren: "str (ex_inline ! (4 + 2)) = '')''" by (simp add: ex_inline_def fixtures)
  have more: "str (ex_inline ! 6) = '')''" "link (ex_inline ! 6) = Some 2"
    "str (ex_inline ! 1) = ''(''"
    by (simp_all add: ex_inline_def fixtures)
  from inline_paren_validation [OF run f a paren] run more show ?thesis by simp
qed

section \<open>The OR rule\<close>









section \<open>Properties of the else-if analysis\<close>

lemma forward_from_nth:
  "forward_from k ts \<Longrightarrow> i < length ts \<Longrightarrow> open_bracket (str (ts ! i)) \<Longrightarrow>
   link (ts ! i) = Some l \<Longrightarrow> k + i < l"
proof (induction ts arbitrary: k i)
  case Nil
  then show ?case by simp
next
  case (Cons t ts)
  show ?case
  proof (cases i)
    case 0
    with Cons.prems show ?thesis by simp
  next
    case (Suc n)
    with Cons.prems have "Suc k + n < l" by (intro Cons.IH) simp_all
    with Suc show ?thesis by simp
  qed
qed

lemma link_of_forward:
  assumes "links_forward toks" and "link_of toks (Some i) = Some l"
    and "open_bracket (str (toks ! i))"
  shows "i < l \<and> l < length toks"
proof -
  from assms(2) have i: "i < length toks" and l: "link (toks ! i) = Some l" "l < length toks"
    by (auto split: if_splits option.splits)
  from forward_from_nth [OF assms(1) [unfolded links_forward_def] i assms(3) l(1)] l(2)
  show ?thesis by simp
qed

lemma else_if_words_iff:
  "simpleMatch toks p else_if_words \<longleftrightarrow>
     (\<exists>c. p = Some c \<and> c + 4 < length toks \<and> str (toks ! c) = ''}'' \<and>
        str (toks ! (c + 1)) = ''else'' \<and> str (toks ! (c + 2)) = ''{'' \<and>
        str (toks ! (c + 3)) = ''if'' \<and> str (toks ! (c + 4)) = ''('')"
  by (cases p) (auto simp: else_if_words_def numeral_eq_Suc)

lemma paren_brace_iff:
  "simpleMatch toks p ['')'', ''{''] \<longleftrightarrow>
     (\<exists>l. p = Some l \<and> l + 1 < length toks \<and> str (toks ! l) = '')'' \<and>
        str (toks ! (l + 1)) = ''{'')"
  by (cases p) auto

lemma skip_advances:
  assumes fw: "links_forward toks"
    and m: "simpleMatch toks (Some c) else_if_words"
    and s: "skip_if_block toks (tokAt toks (Some c) 4) = Some d"
  shows "c + 4 < d \<and> d < length toks"
proof -
  from m have c: "c + 4 < length toks" "str (toks ! (c + 4)) = ''(''"
    by (simp_all add: else_if_words_iff)
  then have at: "tokAt toks (Some c) 4 = Some (c + 4)" by (simp add: nat_add_distrib)
  show ?thesis
  proof (cases "link_of toks (Some (c + 4))")
    case None
    with s at show ?thesis by (simp add: skip_if_block_def)
  next
    case (Some l)
    from link_of_forward [OF fw Some] c have l: "c + 4 < l" "l < length toks"
      by (simp_all add: open_bracket_def)
    have sk: "skip_if_block toks (Some (c + 4)) =
        (if simpleMatch toks (Some l) ['')'', ''{'']
         then link_of toks (next_tok toks (Some l)) else Some l)"
      by (simp only: skip_if_block_def Some Let_def)
    show ?thesis
    proof (cases "simpleMatch toks (Some l) ['')'', ''{'']")
      case False
      with s at sk have "d = l" by (simp only: if_False option.inject)
      with l show ?thesis by simp
    next
      case True
      then have b: "l + 1 < length toks" "str (toks ! (l + 1)) = ''{''"
        by (simp_all add: paren_brace_iff)
      then have "next_tok toks (Some l) = Some (l + 1)" by simp
      with s at sk True have "link_of toks (Some (l + 1)) = Some d"
        by (simp only: if_True)
      from link_of_forward [OF fw this] b l show ?thesis by (simp add: open_bracket_def)
    qed
  qed
qed

lemma chain_walk_stop:
  "\<not> simpleMatch toks p else_if_words \<Longrightarrow> chain_walk dec toks v m line p = Some []"
  by (subst chain_walk.simps) simp

lemma chain_walk_step:
  "simpleMatch toks p else_if_words \<Longrightarrow>
   chain_walk dec toks v m line p =
     Option.bind (chain_walk dec toks v m line (skip_if_block toks (tokAt toks p 4)))
       (\<lambda>rest. Some (link_findings dec toks v m line (tokAt toks p 4) @ rest))"
  by (subst chain_walk.simps) (simp add: Let_def)

lemma chain_walk_total_Some:
  assumes fw: "links_forward toks"
  shows "\<exists>fs. chain_walk dec toks v m line (Some c) = Some fs"
proof (induction "length toks - c" arbitrary: c rule: less_induct)
  case less
  show ?case
  proof (cases "simpleMatch toks (Some c) else_if_words")
    case False
    then show ?thesis by (simp add: chain_walk_stop)
  next
    case True
    show ?thesis
    proof (cases "skip_if_block toks (tokAt toks (Some c) 4)")
      case None
      have "chain_walk dec toks v m line None = Some []"
        by (rule chain_walk_stop) (simp add: else_if_words_def)
      with True None show ?thesis by (simp add: chain_walk_step del: tokAt.simps)
    next
      case (Some d)
      from skip_advances [OF fw True Some] have "length toks - d < length toks - c" by linarith
      from less [OF this] obtain fs where "chain_walk dec toks v m line (Some d) = Some fs" ..
      with True Some show ?thesis by (simp add: chain_walk_step del: tokAt.simps)
    qed
  qed
qed

lemma chain_walk_total:
  assumes "links_forward toks"
  shows "\<exists>fs. chain_walk dec toks v m line p = Some fs"
proof (cases p)
  case None
  have "chain_walk dec toks v m line None = Some []"
    by (rule chain_walk_stop) (simp add: else_if_words_def)
  with None show ?thesis by simp
next
  case (Some c)
  with chain_walk_total_Some [OF assms] show ?thesis by simp
qed


lemma chain_link_unfold:
  "chain_link toks p c \<longleftrightarrow>
     simpleMatch toks p else_if_words \<and>
     (c = p \<or> chain_link toks (skip_if_block toks (tokAt toks p 4)) c)"
  by (auto intro: chain_link.intros elim: chain_link.cases)

lemma chain_link_forward:
  assumes fw: "links_forward toks" and cl: "chain_link toks p q"
  shows "\<exists>a b. p = Some a \<and> q = Some b \<and> a \<le> b \<and> b + 4 < length toks"
  using cl
proof (induction rule: chain_link.induct)
  case (here c)
  then show ?case by (auto simp: else_if_words_iff)
next
  case (later c d)
  from later.hyps(1) obtain a where a: "c = Some a" by (auto simp: else_if_words_iff)
  from later.IH obtain a' b where
    b: "skip_if_block toks (tokAt toks c 4) = Some a'" "d = Some b" "a' \<le> b"
       "b + 4 < length toks"
    by blast
  from skip_advances [OF fw later.hyps(1) [unfolded a] b(1) [unfolded a]] have "a < a'" by simp
  with a b show ?case by simp
qed

lemma link_findings_iff:
  "link_findings dec toks v m line opar = [f] \<longleftrightarrow>
     Match toks opar chain_pattern v \<and> 0 \<le> dec (strAt toks opar 3) \<and>
     m AND dec (strAt toks opar 3) = dec (strAt toks opar 3) \<and>
     f = MultiConditionError opar line"
  by (auto simp: link_findings_def Let_def)

lemma link_findings_cases:
  "link_findings dec toks v m line opar = [] \<or>
   link_findings dec toks v m line opar = [MultiConditionError opar line]"
  by (simp add: link_findings_def Let_def)

lemma chain_walk_char:
  assumes fw: "links_forward toks"
  shows "\<exists>fs. chain_walk dec toks v m line p = Some fs \<and> distinct fs \<and>
           (\<forall>f. f \<in> set fs \<longleftrightarrow>
              (\<exists>c. chain_link toks p c \<and>
                 link_findings dec toks v m line (tokAt toks c 4) = [f]))"
proof (induction "cursor_rest toks p" arbitrary: p rule: less_induct)
  case less
  show ?case
  proof (cases "simpleMatch toks p else_if_words")
    case False
    then have "\<not> chain_link toks p c" for c by (subst chain_link_unfold) simp
    with False show ?thesis by (simp add: chain_walk_stop)
  next
    case True
    then obtain a where a: "p = Some a" "a + 4 < length toks"
      by (auto simp: else_if_words_iff)
    then have at: "tokAt toks p 4 = Some (a + 4)" by (simp add: nat_add_distrib)
    let ?q = "skip_if_block toks (tokAt toks p 4)"
    let ?lf = "link_findings dec toks v m line (tokAt toks p 4)"
    have "cursor_rest toks ?q < cursor_rest toks p"
    proof (cases ?q)
      case None
      with a show ?thesis by (simp add: cursor_rest_def)
    next
      case (Some d)
      from skip_advances [OF fw True [unfolded a] Some [unfolded a]] a Some
      show ?thesis by (simp add: cursor_rest_def del: tokAt.simps) linarith
    qed
    from less [OF this] obtain rest where
      rest: "chain_walk dec toks v m line ?q = Some rest" "distinct rest"
        "\<forall>f. f \<in> set rest \<longleftrightarrow>
           (\<exists>c. chain_link toks ?q c \<and> link_findings dec toks v m line (tokAt toks c 4) = [f])"
      by blast
    from True rest(1) have walk: "chain_walk dec toks v m line p = Some (?lf @ rest)"
      by (simp add: chain_walk_step del: tokAt.simps)
    have apart: "MultiConditionError (tokAt toks p 4) line \<notin> set rest"
    proof
      assume "MultiConditionError (tokAt toks p 4) line \<in> set rest"
      with rest(3) obtain c where c: "chain_link toks ?q c"
        "link_findings dec toks v m line (tokAt toks c 4) =
           [MultiConditionError (tokAt toks p 4) line]"
        by blast
      from chain_link_forward [OF fw c(1)] obtain d b where
        d: "?q = Some d" "c = Some b" "d \<le> b" "b + 4 < length toks"
        by blast
      from skip_advances [OF fw True [unfolded a] d(1) [unfolded a]] d have "a < b" by simp
      moreover from c(2) have "tokAt toks c 4 = tokAt toks p 4"
        by (simp add: link_findings_iff del: tokAt.simps)
      with d at have "b + 4 = a + 4" by (simp add: nat_add_distrib)
      ultimately show False by simp
    qed
    have dist: "distinct (?lf @ rest)"
      using link_findings_cases [of dec toks v m line "tokAt toks p 4"] rest(2) apart
      by (auto simp del: tokAt.simps)
    have mem: "f \<in> set (?lf @ rest) \<longleftrightarrow>
        (\<exists>c. chain_link toks p c \<and> link_findings dec toks v m line (tokAt toks c 4) = [f])"
      for f
    proof -
      have "f \<in> set ?lf \<longleftrightarrow> ?lf = [f]"
        using link_findings_cases [of dec toks v m line "tokAt toks p 4"]
        by (auto simp del: tokAt.simps)
      then have "f \<in> set (?lf @ rest) \<longleftrightarrow>
          ?lf = [f] \<or> (\<exists>c. chain_link toks ?q c \<and>
             link_findings dec toks v m line (tokAt toks c 4) = [f])"
        using rest(3) by (simp del: tokAt.simps)
      also have "\<dots> \<longleftrightarrow>
          (\<exists>c. chain_link toks p c \<and> link_findings dec toks v m line (tokAt toks c 4) = [f])"
        using True by (subst (2) chain_link_unfold) blast
      finally show ?thesis .
    qed
    from walk dist mem show ?thesis by blast
  qed
qed

lemma link_findings_mem:
  "f \<in> set (link_findings dec toks v m line opar) \<Longrightarrow> f = MultiConditionError opar line"
  by (auto simp: link_findings_def Let_def split: if_splits)

lemma chain_walk_anchor:
  assumes "chain_walk dec toks v m line p = Some fs"
  shows "\<forall>f \<in> set fs. \<exists>a. anchor f = Some a \<and> a < length toks"
proof (rule chain_walk.raw_induct
    [where P = "\<lambda>dec toks v m line p fs. \<forall>f \<in> set fs. \<exists>a. anchor f = Some a \<and> a < length toks",
      OF _ assms])
  fix walk dec toks v m line p fs
  assume IH: "\<And>d ts w n l q ys. walk d ts w n l q = Some ys \<Longrightarrow>
                 \<forall>f \<in> set ys. \<exists>a. anchor f = Some a \<and> a < length ts"
    and body: "(if simpleMatch toks p else_if_words
          then let opar = tokAt toks p 4
               in Option.bind (walk dec toks v m line (skip_if_block toks opar))
                    (\<lambda>rest. Some (link_findings dec toks v m line opar @ rest))
          else Some []) = Some fs"
  show "\<forall>f \<in> set fs. \<exists>a. anchor f = Some a \<and> a < length toks"
  proof (cases "simpleMatch toks p else_if_words")
    case False
    with body show ?thesis by simp
  next
    case True
    then obtain c where c: "p = Some c" "c + 4 < length toks"
      by (auto simp: else_if_words_iff)
    then have at: "tokAt toks p 4 = Some (c + 4)" by (simp add: nat_add_distrib)
    from body True obtain rest where
      rest: "walk dec toks v m line (skip_if_block toks (tokAt toks p 4)) = Some rest"
        "fs = link_findings dec toks v m line (tokAt toks p 4) @ rest"
      by (auto simp: Let_def bind_eq_Some_conv simp del: tokAt.simps)
    from IH [OF rest(1)] have "\<forall>f \<in> set rest. \<exists>a. anchor f = Some a \<and> a < length toks" .
    moreover have "\<forall>f \<in> set (link_findings dec toks v m line (tokAt toks p 4)).
        \<exists>a. anchor f = Some a \<and> a < length toks"
      using c(2) at by (auto dest!: link_findings_mem simp del: tokAt.simps)
    ultimately show ?thesis using rest(2) by (auto simp del: tokAt.simps)
  qed
qed


lemma cond_pattern_iff:
  "Match toks (Some t) cond_pattern 0 \<longleftrightarrow>
     t + 6 < length toks \<and> str (toks ! t) = ''if'' \<and> str (toks ! (t + 1)) = ''('' \<and>
     isName (toks ! (t + 2)) \<and> str (toks ! (t + 3)) = ''&'' \<and> isNumber (toks ! (t + 4)) \<and>
     str (toks ! (t + 5)) = '')'' \<and> str (toks ! (t + 6)) = ''{''"
  by (auto simp: cond_pattern_def numeral_eq_Suc)

lemma multiCondition_scope_total:
  assumes "links_forward toks"
  shows "\<exists>fs. multiCondition_scope dec toks sc = Some fs"
  using chain_walk_total [OF assms]
  by (simp add: multiCondition_scope_def Let_def split: option.splits)

lemma multiCondition_scopes_total:
  assumes "links_forward toks"
  shows "\<exists>fs. multiCondition_scopes dec toks scs = Some fs"
proof (induction scs)
  case Nil
  then show ?case by simp
next
  case (Cons sc scs)
  from multiCondition_scope_total [OF assms] obtain fs where
    "multiCondition_scope dec toks sc = Some fs" ..
  with Cons show ?case by auto
qed

lemmas multiCondition_run = multiCondition_def multiCondition_scope_def cond_pattern_def
  linkAt_def strAt_def chain_walk.simps else_if_words_def skip_if_block_def
  link_findings_def chain_pattern_def

text \<open>
  Without well-formed links the walk need not end: on \<open>ex_loop\<close> the cursor comes back
  to where it started.
\<close>

lemma ex_loop_step:
  "simpleMatch ex_loop (Some 0) else_if_words \<and>
   skip_if_block ex_loop (tokAt ex_loop (Some 0) 4) = Some 0"
  by (simp add: ex_loop_def fixtures else_if_words_def skip_if_block_def)

lemma chain_walk_may_not_end: "chain_walk dec ex_loop v m line (Some 0) = None"
proof (rule ccontr)
  assume "chain_walk dec ex_loop v m line (Some 0) \<noteq> None"
  then obtain fs where fs: "chain_walk dec ex_loop v m line (Some 0) = Some fs" by blast
  have "\<not> (ex_loop = ex_loop \<and> Some 0 = Some (0::nat))"
  proof (rule chain_walk.raw_induct
      [where P = "\<lambda>dec toks v m line p fs. \<not> (toks = ex_loop \<and> p = Some 0)", OF _ fs])
    fix walk dec toks v m line p fs
    assume IH: "\<And>d ts w n l q ys. walk d ts w n l q = Some ys \<Longrightarrow>
                  \<not> (ts = ex_loop \<and> q = Some 0)"
      and body: "(if simpleMatch toks p else_if_words
            then let opar = tokAt toks p 4
                 in Option.bind (walk dec toks v m line (skip_if_block toks opar))
                      (\<lambda>rest. Some (link_findings dec toks v m line opar @ rest))
            else Some []) = Some fs"
    show "\<not> (toks = ex_loop \<and> p = Some 0)"
    proof
      assume here: "toks = ex_loop \<and> p = Some 0"
      with body ex_loop_step obtain rest where
        "walk dec ex_loop v m line (Some 0) = Some rest"
        by (auto simp: Let_def bind_eq_Some_conv simp del: tokAt.simps)
      from IH [OF this] show False by simp
    qed
  qed
  then show False by simp
qed

text \<open>
  C10. On a token stream whose bracket links are well formed (the link of an open
  parenthesis or brace, where there is one, points to a later token), the walk along an
  else-if chain ends, from any cursor, and so does the whole multi-condition analysis.
\<close>

theorem chain_walk_terminates:
  assumes "links_forward toks"
  shows "(\<exists>fs. chain_walk dec toks varid num1 line1 tok2 = Some fs) \<and>
         (\<exists>fs. multiCondition style dec toks scopeList = Some fs)"
  using chain_walk_total [OF assms] multiCondition_scopes_total [OF assms]
  by (simp add: multiCondition_def)

theorem chain_walk_terminates_witness:
  "links_forward ex_chain \<and>
   chain_walk decimal ex_chain 1 6 7 (Some 7) = Some [MultiConditionError (Some 31) 7] \<and>
   (\<exists>fs. multiCondition True decimal ex_chain ex_scopes = Some fs)"
proof -
  have fw: "links_forward ex_chain"
    by (simp add: links_forward_def ex_chain_def fixtures open_bracket_def)
  have walk: "chain_walk decimal ex_chain 1 6 7 (Some 7) = Some [MultiConditionError (Some 31) 7]"
    by (simp add: multiCondition_run ex_chain_def fixtures)
  from chain_walk_terminates [OF fw, of decimal 1 6 7 "Some 7" True ex_scopes] fw walk
  show ?thesis by simp
qed

lemma multiCondition_scope_char:
  assumes fw: "links_forward toks" and mi: "masked_if dec toks sc t"
  shows "\<exists>fs. multiCondition_scope dec toks sc = Some fs \<and> distinct fs \<and>
           (\<forall>f. f \<in> set fs \<longleftrightarrow>
              (\<exists>c. chain_link toks (linkAt toks (Some t) 6) c \<and>
                 Match toks (tokAt toks c 4) chain_pattern (varId (toks ! (t + 2))) \<and>
                 0 \<le> dec (strAt toks (tokAt toks c 4) 3) \<and>
                 dec (str (toks ! (t + 4))) AND dec (strAt toks (tokAt toks c 4) 3) =
                   dec (strAt toks (tokAt toks c 4) 3) \<and>
                 f = MultiConditionError (tokAt toks c 4) (linenr (toks ! t))))"
proof -
  from mi have sc: "type sc = eIf" "classDef sc = Some t"
    and m: "Match toks (Some t) cond_pattern 0"
    and v: "varId (toks ! (t + 2)) \<noteq> 0"
    and n: "0 \<le> dec (str (toks ! (t + 4)))"
    by (simp_all add: masked_if_def)
  from m have "t + 6 < length toks" by (simp add: cond_pattern_iff)
  then have s4: "strAt toks (Some t) 4 = str (toks ! (t + 4))"
    by (simp add: strAt_def nat_add_distrib)
  have "multiCondition_scope dec toks sc =
      chain_walk dec toks (varId (toks ! (t + 2))) (dec (str (toks ! (t + 4))))
        (linenr (toks ! t)) (linkAt toks (Some t) 6)"
    using sc m v n by (simp add: multiCondition_scope_def Let_def s4)
  with chain_walk_char [OF fw, of dec "varId (toks ! (t + 2))" "dec (str (toks ! (t + 4)))"
      "linenr (toks ! t)" "linkAt toks (Some t) 6"]
  show ?thesis by (simp only: link_findings_iff)
qed

lemma multiCondition_scope_other:
  assumes "\<forall>t. \<not> masked_if dec toks sc t"
  shows "multiCondition_scope dec toks sc = Some []"
proof (cases "classDef sc")
  case None
  then show ?thesis by (simp add: multiCondition_scope_def)
next
  case (Some t)
  with assms have no: "\<not> (type sc = eIf \<and> Match toks (Some t) cond_pattern 0 \<and>
      varId (toks ! (t + 2)) \<noteq> 0 \<and> 0 \<le> dec (str (toks ! (t + 4))))"
    by (simp add: masked_if_def)
  show ?thesis
  proof (cases "type sc = eIf \<and> Match toks (Some t) cond_pattern 0")
    case False
    with Some show ?thesis by (auto simp: multiCondition_scope_def)
  next
    case True
    then have "t + 6 < length toks" by (simp add: cond_pattern_iff)
    then have s4: "strAt toks (Some t) 4 = str (toks ! (t + 4))"
      by (simp add: strAt_def nat_add_distrib)
    from True no have "varId (toks ! (t + 2)) = 0 \<or> dec (str (toks ! (t + 4))) < 0"
      by auto
    with Some True show ?thesis by (auto simp: multiCondition_scope_def Let_def s4)
  qed
qed

lemma multiCondition_scopes_parts:
  assumes fw: "links_forward toks"
  shows "\<exists>fss. multiCondition_scopes dec toks scs = Some (concat fss) \<and>
           length fss = length scs \<and>
           (\<forall>k < length scs. multiCondition_scope dec toks (scs ! k) = Some (fss ! k))"
proof (induction scs)
  case Nil
  then show ?case by simp
next
  case (Cons sc scs)
  from multiCondition_scope_total [OF fw] obtain gs where
    gs: "multiCondition_scope dec toks sc = Some gs" ..
  from Cons obtain fss where
    fss: "multiCondition_scopes dec toks scs = Some (concat fss)" "length fss = length scs"
      "\<forall>k < length scs. multiCondition_scope dec toks (scs ! k) = Some (fss ! k)"
    by blast
  have "\<forall>k < length (sc # scs).
      multiCondition_scope dec toks ((sc # scs) ! k) = Some ((gs # fss) ! k)"
    using gs fss(3) by (auto simp: nth_Cons split: nat.splits)
  moreover have "multiCondition_scopes dec toks (sc # scs) = Some (concat (gs # fss))"
    using gs fss(1) by simp
  moreover have "length (gs # fss) = length (sc # scs)" using fss(2) by simp
  ultimately show ?case by blast
qed

lemma chain_link_ex_chain: "chain_link ex_chain (Some 7) (Some 27)"
proof -
  have l27: "chain_link ex_chain (Some 27) (Some 27)"
    by (rule chain_link.here) (simp add: ex_chain_def fixtures else_if_words_def)
  have s17: "skip_if_block ex_chain (tokAt ex_chain (Some 17) 4) = Some 27"
    by (simp add: ex_chain_def fixtures skip_if_block_def)
  have m17: "simpleMatch ex_chain (Some 17) else_if_words"
    by (simp add: ex_chain_def fixtures else_if_words_def)
  have l17: "chain_link ex_chain (Some 17) (Some 27)"
    by (rule chain_link.later [OF m17]) (simp only: s17 l27)
  have s7: "skip_if_block ex_chain (tokAt ex_chain (Some 7) 4) = Some 17"
    by (simp add: ex_chain_def fixtures skip_if_block_def)
  have m7: "simpleMatch ex_chain (Some 7) else_if_words"
    by (simp add: ex_chain_def fixtures else_if_words_def)
  show ?thesis
    by (rule chain_link.later [OF m7]) (simp only: s7 l17)
qed

text \<open>
  C2. On a stream with well-formed bracket links the multi-condition analysis ends, and
  its findings are those of its scopes, one scope after the other in the order of the
  scope list. For every scope that is an if-block on \<^verbatim>\<open>if ( var & mask1 ) {\<close> with a
  nonzero variable identity and a non-negative \<open>mask1\<close>, the findings of the scope are
  exactly these, none of them twice: for each link \<open>c\<close> of its chain whose condition
  matches \<^verbatim>\<open>( var ==|& mask2 <end>\<close> on the same variable identity with a non-negative
  \<open>mask2\<close> and \<open>mask1 AND mask2 = mask2\<close>, one finding anchored at the open parenthesis
  of that condition and citing the line of the scope's \<^verbatim>\<open>if\<close>. Every link is tested
  against \<open>mask1\<close>. Every other scope reports nothing.
\<close>

theorem else_if_chain_findings:
  assumes fw: "links_forward toks"
  shows "\<exists>fss. multiCondition True dec toks scopeList = Some (concat fss) \<and>
           length fss = length scopeList \<and>
           (\<forall>k t. k < length scopeList \<and> masked_if dec toks (scopeList ! k) t \<longrightarrow>
              distinct (fss ! k) \<and>
              (\<forall>f. f \<in> set (fss ! k) \<longleftrightarrow>
                 (\<exists>c. chain_link toks (linkAt toks (Some t) 6) c \<and>
                    Match toks (tokAt toks c 4) chain_pattern (varId (toks ! (t + 2))) \<and>
                    0 \<le> dec (strAt toks (tokAt toks c 4) 3) \<and>
                    dec (str (toks ! (t + 4))) AND dec (strAt toks (tokAt toks c 4) 3) =
                      dec (strAt toks (tokAt toks c 4) 3) \<and>
                    f = MultiConditionError (tokAt toks c 4) (linenr (toks ! t))))) \<and>
           (\<forall>k. k < length scopeList \<and> (\<forall>t. \<not> masked_if dec toks (scopeList ! k) t) \<longrightarrow>
              fss ! k = [])"
proof -
  from multiCondition_scopes_parts [OF fw, of dec scopeList] obtain fss where
    fss: "multiCondition_scopes dec toks scopeList = Some (concat fss)"
      "length fss = length scopeList"
      "\<forall>k < length scopeList. multiCondition_scope dec toks (scopeList ! k) = Some (fss ! k)"
    by blast
  have run: "multiCondition True dec toks scopeList = Some (concat fss)"
    using fss(1) by (simp add: multiCondition_def)
  have masked: "distinct (fss ! k) \<and>
      (\<forall>f. f \<in> set (fss ! k) \<longleftrightarrow>
         (\<exists>c. chain_link toks (linkAt toks (Some t) 6) c \<and>
            Match toks (tokAt toks c 4) chain_pattern (varId (toks ! (t + 2))) \<and>
            0 \<le> dec (strAt toks (tokAt toks c 4) 3) \<and>
            dec (str (toks ! (t + 4))) AND dec (strAt toks (tokAt toks c 4) 3) =
              dec (strAt toks (tokAt toks c 4) 3) \<and>
            f = MultiConditionError (tokAt toks c 4) (linenr (toks ! t))))"
    if "k < length scopeList \<and> masked_if dec toks (scopeList ! k) t" for k t
  proof -
    from that fss(3) have "multiCondition_scope dec toks (scopeList ! k) = Some (fss ! k)"
      by simp
    with multiCondition_scope_char [OF fw, of dec "scopeList ! k" t] that
    show ?thesis by (simp del: tokAt.simps)
  qed
  have other: "fss ! k = []"
    if "k < length scopeList \<and> (\<forall>t. \<not> masked_if dec toks (scopeList ! k) t)" for k
  proof -
    from that fss(3) have "multiCondition_scope dec toks (scopeList ! k) = Some (fss ! k)"
      by simp
    with multiCondition_scope_other [of dec toks "scopeList ! k"] that show ?thesis by simp
  qed
  from run fss(2) masked other show ?thesis by blast
qed

theorem else_if_chain_findings_witness:
  "links_forward ex_chain \<and> masked_if decimal ex_chain (ex_scopes ! 0) 0 \<and>
   chain_link ex_chain (Some 7) (Some 27) \<and>
   Match ex_chain (Some 31) chain_pattern 1 \<and> (6::int) AND 2 = 2 \<and>
   multiCondition True decimal ex_chain ex_scopes = Some [MultiConditionError (Some 31) 7] \<and>
   (\<exists>fss. multiCondition True decimal ex_chain ex_scopes = Some (concat fss) \<and>
      length fss = length ex_scopes \<and> distinct (fss ! 0) \<and>
      MultiConditionError (Some 31) 7 \<in> set (fss ! 0) \<and> fss ! 1 = [])"
proof -
  have fw: "links_forward ex_chain"
    by (simp add: links_forward_def ex_chain_def fixtures open_bracket_def)
  have mi: "masked_if decimal ex_chain (ex_scopes ! 0) 0"
    by (simp add: masked_if_def ex_scopes_def ex_chain_def fixtures cond_pattern_def)
  have no: "\<forall>t. \<not> masked_if decimal ex_chain (ex_scopes ! 1) t"
    by (simp add: masked_if_def ex_scopes_def)
  have len: "0 < length ex_scopes" "1 < length ex_scopes" by (simp_all add: ex_scopes_def)
  have run: "multiCondition True decimal ex_chain ex_scopes =
      Some [MultiConditionError (Some 31) 7]"
    by (simp add: multiCondition_run ex_scopes_def ex_chain_def fixtures)
  have pat: "Match ex_chain (Some 31) chain_pattern 1"
    by (simp add: ex_chain_def fixtures chain_pattern_def)
  have start: "linkAt ex_chain (Some 0) 6 = Some 7"
    by (simp add: linkAt_def ex_chain_def fixtures)
  have at: "tokAt ex_chain (Some 27) 4 = Some 31" by (simp add: ex_chain_def)
  have facts: "varId (ex_chain ! (0 + 2)) = 1" "decimal (str (ex_chain ! (0 + 4))) = 6"
    "decimal (strAt ex_chain (Some 31) 3) = 2" "linenr (ex_chain ! 0) = 7"
    by (simp_all add: ex_chain_def fixtures strAt_def)
  from else_if_chain_findings [OF fw, of decimal ex_scopes] obtain fss where
    fss: "multiCondition True decimal ex_chain ex_scopes = Some (concat fss)"
      "length fss = length ex_scopes"
    and masked: "\<And>k t. k < length ex_scopes \<Longrightarrow> masked_if decimal ex_chain (ex_scopes ! k) t \<Longrightarrow>
      distinct (fss ! k) \<and>
      (\<forall>f. f \<in> set (fss ! k) \<longleftrightarrow>
         (\<exists>c. chain_link ex_chain (linkAt ex_chain (Some t) 6) c \<and>
            Match ex_chain (tokAt ex_chain c 4) chain_pattern (varId (ex_chain ! (t + 2))) \<and>
            0 \<le> decimal (strAt ex_chain (tokAt ex_chain c 4) 3) \<and>
            decimal (str (ex_chain ! (t + 4))) AND decimal (strAt ex_chain (tokAt ex_chain c 4) 3) =
              decimal (strAt ex_chain (tokAt ex_chain c 4) 3) \<and>
            f = MultiConditionError (tokAt ex_chain c 4) (linenr (ex_chain ! t))))"
    and other: "\<And>k. k < length ex_scopes \<Longrightarrow>
      \<forall>t. \<not> masked_if decimal ex_chain (ex_scopes ! k) t \<Longrightarrow> fss ! k = []"
    by blast
  from masked [OF len(1) mi] have d: "distinct (fss ! 0)"
    and mem: "\<And>f. (\<exists>c. chain_link ex_chain (linkAt ex_chain (Some 0) 6) c \<and>
            Match ex_chain (tokAt ex_chain c 4) chain_pattern (varId (ex_chain ! (0 + 2))) \<and>
            0 \<le> decimal (strAt ex_chain (tokAt ex_chain c 4) 3) \<and>
            decimal (str (ex_chain ! (0 + 4))) AND decimal (strAt ex_chain (tokAt ex_chain c 4) 3) =
              decimal (strAt ex_chain (tokAt ex_chain c 4) 3) \<and>
            f = MultiConditionError (tokAt ex_chain c 4) (linenr (ex_chain ! 0))) \<Longrightarrow>
         f \<in> set (fss ! 0)"
    by blast+
  have "MultiConditionError (Some 31) 7 \<in> set (fss ! 0)"
    by (rule mem, rule exI [of _ "Some 27"])
      (simp only: start at facts chain_link_ex_chain pat, simp)
  moreover from other [OF len(2) no] have "fss ! 1 = []" .
  ultimately have "\<exists>fss. multiCondition True decimal ex_chain ex_scopes = Some (concat fss) \<and>
      length fss = length ex_scopes \<and> distinct (fss ! 0) \<and>
      MultiConditionError (Some 31) 7 \<in> set (fss ! 0) \<and> fss ! 1 = []"
    using fss d by blast
  with fw mi chain_link_ex_chain pat run show ?thesis by simp
qed

section \<open>Anchors\<close>

lemma multiCondition_scopes_anchor:
  assumes "multiCondition_scopes dec toks scs = Some fs"
  shows "\<forall>f \<in> set fs. \<exists>a. anchor f = Some a \<and> a < length toks"
  using assms
proof (induction scs arbitrary: fs)
  case Nil
  then show ?case by simp
next
  case (Cons sc scs)
  from Cons.prems obtain gs hs where
    g: "multiCondition_scope dec toks sc = Some gs"
       "multiCondition_scopes dec toks scs = Some hs" "fs = gs @ hs"
    by (auto simp: bind_eq_Some_conv)
  have "\<forall>f \<in> set gs. \<exists>a. anchor f = Some a \<and> a < length toks"
  proof (cases "\<exists>v m line p. gs \<noteq> [] \<and> chain_walk dec toks v m line p = Some gs")
    case True
    then show ?thesis using chain_walk_anchor by blast
  next
    case False
    with g(1) have "gs = []"
      by (auto simp: multiCondition_scope_def Let_def split: option.splits if_splits)
    then show ?thesis by simp
  qed
  with Cons.IH [OF g(2)] g(3) show ?case by auto
qed

text \<open>
  C8. Every finding reported by any of the three analyses is anchored at a token of the
  stream, never at the null pointer.
\<close>

theorem anchors_valid:
  "(\<forall>fs. assignIf style dec toks = Inr fs \<longrightarrow>
      (\<forall>f \<in> set fs. \<exists>a. anchor f = Some a \<and> a < length toks)) \<and>
   (\<forall>fs. comparison style dec toks = Inr fs \<longrightarrow>
      (\<forall>f \<in> set fs. \<exists>a. anchor f = Some a \<and> a < length toks)) \<and>
   (\<forall>fs. multiCondition style dec toks scopeList = Some fs \<longrightarrow>
      (\<forall>f \<in> set fs. \<exists>a. anchor f = Some a \<and> a < length toks))"
proof (intro conjI allI impI ballI)
  fix fs f
  assume "assignIf style dec toks = Inr fs" and "f \<in> set fs"
  then obtain i where "f \<in> set (candidate_scan dec toks i)"
    by (auto simp: assignIf_eq split: if_splits)
  from candidate_scan_anchor [OF this]
  show "\<exists>a. anchor f = Some a \<and> a < length toks" by auto
next
  fix fs f
  assume run: "comparison style dec toks = Inr fs" and f: "f \<in> set fs"
  then have "comparison_loop dec toks 0 = Inr fs"
    by (auto simp: comparison_def split: if_splits)
  from comparison_loop_mem [OF this f] obtain k gs where
    k: "k < length toks" "comparison_at dec toks k = Inr gs" "f \<in> set gs"
    by blast
  from comparison_at_mem [OF k(2,3)] k(1)
  show "\<exists>a. anchor f = Some a \<and> a < length toks" by simp
next
  fix fs f
  assume "multiCondition style dec toks scopeList = Some fs" and f: "f \<in> set fs"
  then have "multiCondition_scopes dec toks scopeList = Some fs"
    by (auto simp: multiCondition_def split: if_splits)
  from multiCondition_scopes_anchor [OF this] f
  show "\<exists>a. anchor f = Some a \<and> a < length toks" by blast
qed

theorem anchors_valid_witness:
  "assignIf True decimal ex_assign = Inr [AssignIfError (Some 7) False] \<and>
   comparison True decimal ex_inline =
     Inr [ComparisonError (Some 4) ''&'' 16 ''=='' 17 False] \<and>
   multiCondition True decimal ex_chain ex_scopes = Some [MultiConditionError (Some 31) 7] \<and>
   (\<exists>a. anchor (AssignIfError (Some 7) False) = Some a \<and> a < length ex_assign) \<and>
   (\<exists>a. anchor (ComparisonError (Some 4) ''&'' 16 ''=='' 17 False) = Some a \<and>
      a < length ex_inline) \<and>
   (\<exists>a. anchor (MultiConditionError (Some 31) 7) = Some a \<and> a < length ex_chain)"
proof -
  have r1: "assignIf True decimal ex_assign = Inr [AssignIfError (Some 7) False]"
    by (simp add: assignIf_run ex_assign_def fixtures)
  have r2: "comparison True decimal ex_inline =
      Inr [ComparisonError (Some 4) ''&'' 16 ''=='' 17 False]"
    by (simp add: comparison_run ex_inline_def fixtures)
  have r3: "multiCondition True decimal ex_chain ex_scopes =
      Some [MultiConditionError (Some 31) 7]"
    by (simp add: multiCondition_run ex_scopes_def ex_chain_def fixtures)
  from anchors_valid [of True decimal ex_assign ex_scopes] r1
  have a1: "\<exists>a. anchor (AssignIfError (Some 7) False) = Some a \<and> a < length ex_assign"
    by simp
  from anchors_valid [of True decimal ex_inline ex_scopes] r2
  have a2: "\<exists>a. anchor (ComparisonError (Some 4) ''&'' 16 ''=='' 17 False) = Some a \<and>
      a < length ex_inline"
    by simp
  from anchors_valid [of True decimal ex_chain ex_scopes] r3
  have a3: "\<exists>a. anchor (MultiConditionError (Some 31) 7) = Some a \<and> a < length ex_chain"
    by simp
  from r1 r2 r3 a1 a2 a3 show ?thesis by blast
qed

end
